theory Spec2Isabelle
  imports Main "HOL-Library.Char_ord"
begin

section \<open>Python primitives used by the two scripts\<close>

text \<open>
  A Python \<open>str\<close> is modelled as a \<^typ>\<open>string\<close>, one \<^typ>\<open>char\<close> per code point, so
  the model has the strings of code points below 256 and no others. Characters are ordered
  by code point, which is the order \<open>sorted\<close> uses on the characters of a string.
\<close>

datatype error = ValueError

definition isdecimal :: "char \<Rightarrow> bool" where
  "isdecimal c \<longleftrightarrow> 48 \<le> (of_char c :: nat) \<and> (of_char c :: nat) \<le> 57"

text \<open>
  \<open>int(s)\<close> on a string. On a non-empty string of the decimal digits \<open>0\<close> to \<open>9\<close> it is
  the base-10 value (Python integers are unbounded, hence \<^typ>\<open>int\<close>). Every other string
  is answered with \<open>ValueError\<close>: that is what Python raises on an empty string, on a
  letter, or on a sign or underscore that is not in front of, respectively between, digits.
  Python also accepts blanks around the digits, a leading sign, single underscores between
  digits and the decimal digits of other scripts; these forms are outside this model, which
  agrees with \<open>int\<close> on the strings of the digits \<open>0\<close> to \<open>9\<close>, and every result below
  applies it to such strings only.
\<close>

definition int_of_str :: "string \<Rightarrow> error + int" where
  "int_of_str s =
     (if s \<noteq> [] \<and> list_all isdecimal s
      then Inr (foldl (\<lambda>acc c. 10 * acc + int (of_char c - 48)) 0 s)
      else Inl ValueError)"

text \<open>\<open>str(n)\<close> on an integer: the decimal digits, most significant first, after a minus sign
  when \<open>n\<close> is negative.\<close>

definition digit_char :: "nat \<Rightarrow> char" where
  "digit_char d = char_of (48 + d)"

fun str_of_nat :: "nat \<Rightarrow> string" where
  "str_of_nat n =
     (if n < 10 then [digit_char n]
      else str_of_nat (n div 10) @ [digit_char (n mod 10)])"

declare str_of_nat.simps [simp del]

definition str_of_int :: "int \<Rightarrow> string" where
  "str_of_int i = (if i < 0 then CHR ''-'' # str_of_nat (nat (- i)) else str_of_nat (nat i))"

text \<open>\<open>s.zfill(width)\<close>: a string at least \<open>width\<close> long is returned as it is; a shorter one
  gets zeros on the left, after its sign when it starts with \<open>+\<close> or \<open>-\<close>.\<close>

definition zfill :: "string \<Rightarrow> nat \<Rightarrow> string" where
  "zfill s width =
     (if width \<le> length s then s
      else (case s of
              [] \<Rightarrow> replicate width CHR ''0''
            | c # r \<Rightarrow>
                if c = CHR ''+'' \<or> c = CHR ''-''
                then c # replicate (width - length s) CHR ''0'' @ r
                else replicate (width - length s) CHR ''0'' @ s))"

text \<open>\<open>''.join(sorted(s, reverse=r))\<close>: the characters of \<open>s\<close> in ascending order of code
  point, in descending order when \<open>reverse\<close> is set (equal characters are identical, so the
  stable descending sort is the reversed ascending one).\<close>

definition sorted_py :: "string \<Rightarrow> bool \<Rightarrow> string" where
  "sorted_py s reverse = (if reverse then rev (sort s) else sort s)"

section \<open>kaprekar\_all.py\<close>

definition KAPREKAR_CONST :: string where
  "KAPREKAR_CONST = ''6174''"

text \<open>The local variables \<open>largest\<close> and \<open>smallest\<close> of \<open>kaprekar_once\<close> (and of \<open>kaprekar\<close>
  in kaprekar.py), as functions of the string that is sorted.\<close>

definition largest :: "string \<Rightarrow> string" where
  "largest num_str = sorted_py num_str True"

definition smallest :: "string \<Rightarrow> string" where
  "smallest num_str = sorted_py num_str False"

text \<open>\<open>kaprekar_once\<close>. The argument is a string, on which \<open>str\<close> is the identity. The left
  operand \<open>int(largest)\<close> is evaluated first, so its error wins.\<close>

definition kaprekar_once :: "string \<Rightarrow> error + string" where
  "kaprekar_once num_str =
     (let num_str = zfill num_str 4 in
      case int_of_str (largest num_str) of
        Inl e \<Rightarrow> Inl e
      | Inr l \<Rightarrow>
          (case int_of_str (smallest num_str) of
             Inl e \<Rightarrow> Inl e
           | Inr sm \<Rightarrow> Inr (zfill (str_of_int (l - sm)) 4)))"

definition is_repdigit :: "string \<Rightarrow> bool" where
  "is_repdigit num_str = (let s = zfill num_str 4 in card (set s) = 1)"

text \<open>The \<open>while\<close> loop of \<open>steps_to_kaprekar\<close> together with the two returns after it.
  \<open>Inr None\<close> is the return value \<open>None\<close>, \<open>Inr (Some k)\<close> the return value \<open>k\<close>, and
  \<open>Inl e\<close> an exception that escapes.\<close>

function steps_to_kaprekar_loop :: "string \<Rightarrow> int \<Rightarrow> int \<Rightarrow> error + int option" where
  "steps_to_kaprekar_loop s steps max_iter =
     (if s \<noteq> KAPREKAR_CONST \<and> steps < max_iter then
        (case kaprekar_once s of
           Inl e \<Rightarrow> Inl e
         | Inr s' \<Rightarrow>
             if s' = ''0000'' then Inr None
             else steps_to_kaprekar_loop s' (steps + 1) max_iter)
      else if s = KAPREKAR_CONST then Inr (Some steps)
      else Inr None)"
  by pat_completeness auto
termination
  by (relation "measure (\<lambda>(s, steps, max_iter). nat (max_iter - steps))") auto

declare steps_to_kaprekar_loop.simps [simp del]

definition steps_to_kaprekar :: "string \<Rightarrow> int \<Rightarrow> error + int option" where
  "steps_to_kaprekar start_num max_iter =
     (let s = zfill start_num 4 in
      if is_repdigit s then Inr None
      else steps_to_kaprekar_loop s 0 max_iter)"

text \<open>The default value of \<open>max_iter\<close>.\<close>

definition max_iter_default :: int where
  "max_iter_default = 50"

text \<open>The \<open>for\<close> loop of \<open>compute_all\<close> over the remaining numbers of the range, with the two
  lists it appends to.\<close>

fun compute_all_loop :: "int list \<Rightarrow> int list \<Rightarrow> string list \<Rightarrow> error + (int list \<times> string list)" where
  "compute_all_loop [] counts failures = Inr (counts, failures)"
| "compute_all_loop (n # ns) counts failures =
     (let s = zfill (str_of_int n) 4 in
      if is_repdigit s then compute_all_loop ns counts failures
      else (case steps_to_kaprekar s max_iter_default of
              Inl e \<Rightarrow> Inl e
            | Inr None \<Rightarrow> compute_all_loop ns counts (failures @ [s])
            | Inr (Some st) \<Rightarrow> compute_all_loop ns (counts @ [st]) failures))"

definition compute_all :: "error + (int list \<times> string list)" where
  "compute_all = compute_all_loop [0..9999] [] []"

section \<open>Iterating the operation\<close>

text \<open>The numeral after \<open>k\<close> applications of \<open>kaprekar_once\<close>, the value the variable
  \<open>s\<close> of \<open>steps_to_kaprekar\<close> holds after \<open>k\<close> rounds of its loop.\<close>

primrec kaprekar_iter :: "nat \<Rightarrow> string \<Rightarrow> error + string" where
  "kaprekar_iter 0 s = Inr s"
| "kaprekar_iter (Suc k) s =
     (case kaprekar_once s of Inl e \<Rightarrow> Inl e | Inr s' \<Rightarrow> kaprekar_iter k s')"

text \<open>Whether \<open>KAPREKAR_CONST\<close> is among the first \<open>k + 1\<close> numerals of that sequence.\<close>

primrec converges_within :: "nat \<Rightarrow> string \<Rightarrow> bool" where
  "converges_within 0 s \<longleftrightarrow> s = KAPREKAR_CONST"
| "converges_within (Suc k) s \<longleftrightarrow>
     s = KAPREKAR_CONST \<or>
     (case kaprekar_once s of Inl e \<Rightarrow> False | Inr s' \<Rightarrow> converges_within k s')"

section \<open>kaprekar.py\<close>

text \<open>\<open>kaprekar\<close> returns the difference as an integer; its \<open>print\<close> calls write the three
  values to the terminal and are not part of the model.\<close>

definition kaprekar :: "string \<Rightarrow> error + int" where
  "kaprekar num =
     (case int_of_str (largest num) of
        Inl e \<Rightarrow> Inl e
      | Inr l \<Rightarrow>
          (case int_of_str (smallest num) of
             Inl e \<Rightarrow> Inl e
           | Inr sm \<Rightarrow> Inr (l - sm)))"

text \<open>The test in front of the loop (\<open>len(num) != 4\<close>, \<open>len(set(num)) == 1\<close>,
  \<open>not num.isdigit()\<close>) is not part of the model: \<open>str.isdigit\<close> is read off the Unicode
  character database and holds for digits of many scripts, most of them at code points from
  256 on, which a \<^typ>\<open>string\<close> cannot hold.\<close>

text \<open>The \<open>while\<close> loop of the script has no bound, so it is a partial function: \<open>None\<close> is a
  run that never leaves the loop, \<open>Some (Inr step)\<close> a run that leaves it with the counter at
  \<open>step\<close>, \<open>Some (Inl e)\<close> a run that ends in an exception.\<close>

partial_function (option) main_loop :: "string \<Rightarrow> int \<Rightarrow> (error + int) option" where
  "main_loop num step =
     (if num \<noteq> ''6174'' then
        (case kaprekar num of
           Inl e \<Rightarrow> Some (Inl e)
         | Inr difference \<Rightarrow> main_loop (zfill (str_of_int difference) 4) (step + 1))
      else Some (Inr step))"

section \<open>The data model of the specification\<close>

text \<open>A numeral: exactly four decimal digit characters.\<close>

definition is_numeral :: "string \<Rightarrow> bool" where
  "is_numeral s \<longleftrightarrow> length s = 4 \<and> list_all isdecimal s"

text \<open>The canonical numeral of an integer in the range 0 to 9999: its four decimal digits,
  leading zeros kept.\<close>

definition numeral_of :: "nat \<Rightarrow> string" where
  "numeral_of n =
     [digit_char (n div 1000 mod 10), digit_char (n div 100 mod 10),
      digit_char (n div 10 mod 10), digit_char (n mod 10)]"

section \<open>Auxiliary definitions\<close>

text \<open>The step on integer values: for \<open>v\<close> below 10000, the numeral of \<open>kaprekar_value v\<close>
  is what \<open>kaprekar_once\<close> returns on the numeral of \<open>v\<close> (lemma \<open>kaprekar_once_numeral_of\<close>
  below). With the digits of \<open>v\<close> in ascending order \<open>p, q, r, t\<close>, the largest arrangement
  minus the smallest is \<open>999 * (t - p) + 90 * (r - q)\<close>.\<close>

definition kaprekar_value :: "nat \<Rightarrow> nat" where
  "kaprekar_value v =
     (case sort [v div 1000 mod 10, v div 100 mod 10, v div 10 mod 10, v mod 10] of
        [p, q, r, t] \<Rightarrow> 999 * (t - p) + 90 * (r - q)
      | _ \<Rightarrow> 0)"

primrec value_converges_within :: "nat \<Rightarrow> nat \<Rightarrow> bool" where
  "value_converges_within 0 v \<longleftrightarrow> v = 6174"
| "value_converges_within (Suc k) v \<longleftrightarrow> v = 6174 \<or> value_converges_within k (kaprekar_value v)"

text \<open>The values \<open>999 * x + 90 * y\<close> with \<open>1 \<le> x \<le> 9\<close> and \<open>y \<le> x\<close>: one step maps every
  numeral that is not a repdigit to the numeral of one of them (\<open>x\<close> is the largest digit
  minus the smallest, \<open>y\<close> the difference of the two digits in between).\<close>

definition step_values :: "nat list" where
  "step_values = concat (map (\<lambda>x. map (\<lambda>y. 999 * x + 90 * y) [0..<Suc x]) [1..<10])"

text \<open>The numerals \<open>compute_all\<close> enumerates, in the order of its range, and those it does not
  skip.\<close>

definition all_numerals :: "string list" where
  "all_numerals = map (\<lambda>n. zfill (str_of_int n) 4) [0..9999]"

definition analyzable :: "string list" where
  "analyzable = filter (\<lambda>s. \<not> is_repdigit s) all_numerals"

text \<open>The step count \<open>compute_all\<close> appends to \<open>counts\<close> for a numeral, if any.\<close>

definition converged_steps :: "string \<Rightarrow> int option" where
  "converged_steps s =
     (case steps_to_kaprekar s max_iter_default of Inr (Some st) \<Rightarrow> Some st | _ \<Rightarrow> None)"

definition is_failure :: "string \<Rightarrow> bool" where
  "is_failure s \<longleftrightarrow> steps_to_kaprekar s max_iter_default = Inr None"

section \<open>The operation as the specification words it\<close>

text \<open>\<open>kaprekarStep\<close>: sort the digits in descending and in ascending order, read both as
  base-10 integers, subtract the ascending value from the descending one and write the
  difference as a numeral of four digits.\<close>

definition digit_value :: "char \<Rightarrow> nat" where
  "digit_value c = of_char c - 48"

primrec base10 :: "nat list \<Rightarrow> nat" where
  "base10 [] = 0"
| "base10 (d # ds) = d * 10 ^ length ds + base10 ds"

definition kaprekarStep :: "string \<Rightarrow> string" where
  "kaprekarStep num =
     (let digits = map digit_value num;
          descending = base10 (rev (sort digits));
          ascending = base10 (sort digits)
      in numeral_of (nat (int descending - int ascending)))"

section \<open>Digits and numerals\<close>

lemma of_char_digit_char: "d < 10 \<Longrightarrow> of_char (digit_char d) = (48 + d :: nat)"
  by (simp add: digit_char_def)

lemma isdecimal_digit_char: "d < 10 \<Longrightarrow> isdecimal (digit_char d)"
  by (simp add: isdecimal_def of_char_digit_char)

lemma isdecimal_is_digit_char:
  assumes "isdecimal c"
  shows "\<exists>d<10. c = digit_char d"
proof -
  let ?d = "(of_char c :: nat) - 48"
  from assms have "?d < 10" and "48 + ?d = of_char c"
    by (auto simp: isdecimal_def)
  then have "c = digit_char ?d"
    by (simp add: digit_char_def)
  with \<open>?d < 10\<close> show ?thesis by blast
qed

lemma digit_char_le: "a < 10 \<Longrightarrow> b < 10 \<Longrightarrow> digit_char a \<le> digit_char b \<longleftrightarrow> a \<le> b"
  by (simp add: less_eq_char_def of_char_digit_char)

lemma digit_char_eq: "a < 10 \<Longrightarrow> b < 10 \<Longrightarrow> digit_char a = digit_char b \<longleftrightarrow> a = b"
  by (simp add: digit_char_def)

lemma digit_char_0: "digit_char 0 = CHR ''0''"
  by (simp add: digit_char_def char_of_eq_iff)

lemma list4: "length ys = 4 \<Longrightarrow> \<exists>p q r t. ys = [p, q, r, t]"
  by (auto simp: length_Suc_conv numeral_eq_Suc)

lemma is_numeral_digits:
  assumes "is_numeral s"
  shows "\<exists>a b c d. a < 10 \<and> b < 10 \<and> c < 10 \<and> d < 10 \<and> s = [digit_char a, digit_char b, digit_char c, digit_char d]"
proof -
  from assms have "length s = 4" by (simp add: is_numeral_def)
  then obtain w x y z where s: "s = [w, x, y, z]"
    using list4 [of s] by blast
  with assms have "isdecimal w" "isdecimal x" "isdecimal y" "isdecimal z"
    by (simp_all add: is_numeral_def)
  then obtain a b c d where "a < 10" "w = digit_char a" "b < 10" "x = digit_char b"
      "c < 10" "y = digit_char c" "d < 10" "z = digit_char d"
    using isdecimal_is_digit_char by metis
  with s show ?thesis by blast
qed

lemma insort_map_digit_char:
  assumes "x < 10" "\<forall>y\<in>set ys. y < 10"
  shows "insort (digit_char x) (map digit_char ys) = map digit_char (insort x ys)"
  using assms by (induction ys) (simp_all add: digit_char_le)

lemma sort_map_digit_char:
  assumes "\<forall>x\<in>set xs. x < 10"
  shows "sort (map digit_char xs) = map digit_char (sort xs)"
  using assms
proof (induction xs)
  case Nil
  show ?case by simp
next
  case (Cons x xs)
  then have "sort (map digit_char xs) = map digit_char (sort xs)" by simp
  moreover have "insort (digit_char x) (map digit_char (sort xs)) = map digit_char (insort x (sort xs))"
    by (rule insort_map_digit_char) (use Cons.prems in simp_all)
  ultimately show ?case by simp
qed

lemma sort4:
  fixes a :: nat
  shows "\<exists>p q r t. sort [a, b, c, d] = [p, q, r, t] \<and> p \<le> q \<and> q \<le> r \<and> r \<le> t \<and>
           {p, q, r, t} = {a, b, c, d}"
proof -
  define ys where "ys = sort [a, b, c, d]"
  have "length ys = 4" by (simp add: ys_def)
  then obtain p q r t where e: "ys = [p, q, r, t]"
    using list4 by blast
  have "sorted ys" unfolding ys_def by (rule sorted_sort)
  then have "p \<le> q \<and> q \<le> r \<and> r \<le> t" unfolding e by simp
  moreover have "set ys = set [a, b, c, d]" unfolding ys_def by (rule set_sort)
  then have "{p, q, r, t} = {a, b, c, d}" unfolding e by simp
  ultimately show ?thesis using e unfolding ys_def by blast
qed

lemma int_of_str_digits:
  assumes "a < 10" "b < 10" "c < 10" "d < 10"
  shows "int_of_str [digit_char a, digit_char b, digit_char c, digit_char d] =
           Inr (1000 * int a + 100 * int b + 10 * int c + int d)"
  using assms by (simp add: int_of_str_def isdecimal_digit_char of_char_digit_char)

lemma zfill_length4: "length s = 4 \<Longrightarrow> zfill s 4 = s"
  by (simp add: zfill_def)

lemma str_of_nat_lt10: "n < 10 \<Longrightarrow> str_of_nat n = [digit_char n]"
  by (simp add: str_of_nat.simps)

lemma str_of_nat_ge10: "10 \<le> n \<Longrightarrow> str_of_nat n = str_of_nat (n div 10) @ [digit_char (n mod 10)]"
  by (subst str_of_nat.simps) simp

lemma str_of_nat_cases:
  "str_of_nat n =
     (if n < 10 then [digit_char n]
      else if n < 100 then [digit_char (n div 10), digit_char (n mod 10)]
      else if n < 1000 then [digit_char (n div 100), digit_char (n div 10 mod 10), digit_char (n mod 10)]
      else if n < 10000 then [digit_char (n div 1000), digit_char (n div 100 mod 10),
                              digit_char (n div 10 mod 10), digit_char (n mod 10)]
      else str_of_nat (n div 10) @ [digit_char (n mod 10)])"
proof -
  have two: "str_of_nat n = [digit_char (n div 10), digit_char (n mod 10)]"
    if "10 \<le> n" "n < 100" for n
    using that by (simp add: str_of_nat_ge10 str_of_nat_lt10)
  have three: "str_of_nat n = [digit_char (n div 100), digit_char (n div 10 mod 10), digit_char (n mod 10)]"
    if "100 \<le> n" "n < 1000" for n
    using that by (simp add: str_of_nat_ge10 str_of_nat_lt10 two div_mult2_eq [symmetric])
  have four: "str_of_nat n = [digit_char (n div 1000), digit_char (n div 100 mod 10),
                              digit_char (n div 10 mod 10), digit_char (n mod 10)]"
    if "1000 \<le> n" "n < 10000" for n
    using that by (simp add: str_of_nat_ge10 str_of_nat_lt10 three div_mult2_eq [symmetric])
  consider "n < 10" | "10 \<le> n" "n < 100" | "100 \<le> n" "n < 1000"
    | "1000 \<le> n" "n < 10000" | "10000 \<le> n"
    by linarith
  then show ?thesis
  proof cases
    case 1 then show ?thesis by (simp add: str_of_nat_lt10)
  next
    case 2 then show ?thesis by (simp add: two)
  next
    case 3 then show ?thesis by (simp add: three)
  next
    case 4 then show ?thesis by (simp add: four)
  next
    case 5 then show ?thesis by (simp add: str_of_nat_ge10)
  qed
qed

lemma zfill_str_of_int:
  assumes "n < 10000"
  shows "zfill (str_of_int (int n)) 4 =
           [digit_char (n div 1000), digit_char (n div 100 mod 10),
            digit_char (n div 10 mod 10), digit_char (n mod 10)]"
proof -
  have e: "str_of_int (int n) = str_of_nat n"
    by (simp add: str_of_int_def)
  have sign: "digit_char k \<noteq> CHR ''+'' \<and> digit_char k \<noteq> CHR ''-''" if "k < 10" for k
    using that isdecimal_digit_char [of k] by (auto simp: isdecimal_def)
  have z: "replicate 3 x = [x, x, x]" "replicate 2 x = [x, x]" for x :: char
    by (simp_all add: numeral_eq_Suc)
  consider "n < 10" | "10 \<le> n" "n < 100" | "100 \<le> n" "n < 1000" | "1000 \<le> n"
    by linarith
  then show ?thesis
  proof cases
    case 1
    then have "str_of_nat n = [digit_char n]" by (simp add: str_of_nat_cases)
    with 1 sign [of n] show ?thesis
      by (simp add: e zfill_def z digit_char_0)
  next
    case 2
    then have "str_of_nat n = [digit_char (n div 10), digit_char (n mod 10)]"
      by (simp add: str_of_nat_cases)
    with 2 sign [of "n div 10"] show ?thesis
      by (simp add: e zfill_def z digit_char_0)
  next
    case 3
    then have "str_of_nat n = [digit_char (n div 100), digit_char (n div 10 mod 10), digit_char (n mod 10)]"
      by (simp add: str_of_nat_cases)
    with 3 sign [of "n div 100"] show ?thesis
      by (simp add: e zfill_def z digit_char_0)
  next
    case 4
    with assms have "str_of_nat n = [digit_char (n div 1000), digit_char (n div 100 mod 10),
                              digit_char (n div 10 mod 10), digit_char (n mod 10)]"
      by (simp add: str_of_nat_cases)
    then show ?thesis
      by (simp add: e zfill_def)
  qed
qed

lemma zfill_str_of_int_numeral_of:
  "n < 10000 \<Longrightarrow> zfill (str_of_int (int n)) 4 = numeral_of n"
  by (simp add: zfill_str_of_int numeral_of_def)

lemma is_numeral_numeral_of: "is_numeral (numeral_of n)"
  by (simp add: numeral_of_def is_numeral_def isdecimal_digit_char)

lemma is_repdigit_digits:
  assumes "a < 10" "b < 10" "c < 10" "d < 10"
  shows "is_repdigit [digit_char a, digit_char b, digit_char c, digit_char d]
           \<longleftrightarrow> a = b \<and> b = c \<and> c = d"
  using assms by (auto simp: is_repdigit_def zfill_def card_1_singleton_iff digit_char_eq)

lemma digits_sum_aux:
  fixes n q1 q2 q3 r0 r1 r2 :: nat
  assumes "n = 10 * q1 + r0" "q1 = 10 * q2 + r1" "q2 = 10 * q3 + r2"
  shows "1000 * q3 + 100 * r2 + 10 * r1 + r0 = n"
  using assms by simp

lemma digits_sum:
  fixes n :: nat
  shows "1000 * (n div 1000) + 100 * (n div 100 mod 10) + 10 * (n div 10 mod 10) + n mod 10 = n"
proof -
  have e: "n div 100 = n div 10 div 10" "n div 1000 = n div 10 div 10 div 10"
    by (simp_all add: div_mult2_eq [symmetric])
  show ?thesis
    unfolding e by (rule digits_sum_aux) simp_all
qed

lemma mod10_step: "d < 10 \<Longrightarrow> (10 * k + d) mod 10 = (d::nat)"
  by simp

lemma div10_step: "d < 10 \<Longrightarrow> (10 * k + d) div 10 = (k::nat)"
  by simp

lemma digits_of_sum:
  fixes a b c d :: nat
  assumes "b < 10" "c < 10" "d < 10"
  shows "(1000 * a + 100 * b + 10 * c + d) div 1000 = a"
    and "(1000 * a + 100 * b + 10 * c + d) div 100 mod 10 = b"
    and "(1000 * a + 100 * b + 10 * c + d) div 10 mod 10 = c"
    and "(1000 * a + 100 * b + 10 * c + d) mod 10 = d"
proof -
  define n where "n = 1000 * a + 100 * b + 10 * c + d"
  have 0: "n = 10 * (100 * a + 10 * b + c) + d" by (simp add: n_def)
  have m0: "n mod 10 = d"
    unfolding 0 using \<open>d < 10\<close> by (rule mod10_step)
  have 1: "n div 10 = 10 * (10 * a + b) + c"
    unfolding 0 using \<open>d < 10\<close> by (simp add: div10_step)
  have m1: "n div 10 mod 10 = c"
    unfolding 1 using \<open>c < 10\<close> by (rule mod10_step)
  have 2: "n div 10 div 10 = 10 * a + b"
    unfolding 1 using \<open>c < 10\<close> by (simp add: div10_step)
  have e: "n div 100 = n div 10 div 10" "n div 1000 = n div 10 div 10 div 10"
    by (simp_all add: div_mult2_eq [symmetric])
  have m2: "n div 100 mod 10 = b"
    unfolding e 2 using \<open>b < 10\<close> by (rule mod10_step)
  have m3: "n div 1000 = a"
    unfolding e 2 using \<open>b < 10\<close> by (rule div10_step)
  from m3 show "(1000 * a + 100 * b + 10 * c + d) div 1000 = a" unfolding n_def .
  from m2 show "(1000 * a + 100 * b + 10 * c + d) div 100 mod 10 = b" unfolding n_def .
  from m1 show "(1000 * a + 100 * b + 10 * c + d) div 10 mod 10 = c" unfolding n_def .
  from m0 show "(1000 * a + 100 * b + 10 * c + d) mod 10 = d" unfolding n_def .
qed

lemma numeral_of_digits:
  assumes "a < 10" "b < 10" "c < 10" "d < 10"
  shows "numeral_of (1000 * a + 100 * b + 10 * c + d) =
           [digit_char a, digit_char b, digit_char c, digit_char d]"
  using assms by (simp add: numeral_of_def digits_of_sum)

lemma numeral_of_lt: "n < 10000 \<Longrightarrow> n div 1000 mod 10 = n div (1000::nat)"
  by simp

lemma int_of_str_numeral_of:
  assumes "n < 10000"
  shows "int_of_str (numeral_of n) = Inr (int n)"
proof -
  have "int_of_str (numeral_of n) =
          Inr (1000 * int (n div 1000 mod 10) + 100 * int (n div 100 mod 10) +
               10 * int (n div 10 mod 10) + int (n mod 10))"
    unfolding numeral_of_def by (rule int_of_str_digits) simp_all
  also have "1000 * int (n div 1000 mod 10) + 100 * int (n div 100 mod 10) +
               10 * int (n div 10 mod 10) + int (n mod 10) =
             int (1000 * (n div 1000) + 100 * (n div 100 mod 10) + 10 * (n div 10 mod 10) + n mod 10)"
    using assms by (simp add: numeral_of_lt)
  also have "\<dots> = int n"
    by (simp only: digits_sum)
  finally show ?thesis .
qed

lemma is_repdigit_numeral_of:
  assumes "n < 10000"
  shows "is_repdigit (numeral_of n) \<longleftrightarrow> n mod 1111 = 0"
proof -
  define a b c d where "a = n div 1000" and "b = n div 100 mod 10"
    and "c = n div 10 mod 10" and "d = n mod 10"
  have lt: "a < 10" "b < 10" "c < 10" "d < 10"
    using assms by (simp_all add: a_def b_def c_def d_def)
  have n: "n = 1000 * a + 100 * b + 10 * c + d"
    unfolding a_def b_def c_def d_def by (rule digits_sum [symmetric])
  have "is_repdigit (numeral_of n) \<longleftrightarrow> a = b \<and> b = c \<and> c = d"
    unfolding n using lt by (simp add: numeral_of_digits is_repdigit_digits)
  also have "\<dots> \<longleftrightarrow> n mod 1111 = 0"
  proof
    assume "a = b \<and> b = c \<and> c = d"
    then have "n = 1111 * a" unfolding n by simp
    then show "n mod 1111 = 0" by simp
  next
    assume "n mod 1111 = 0"
    then obtain k where k: "n = 1111 * k" by (auto simp: mod_eq_0_iff_dvd)
    with assms have "k < 10" by simp
    have "1000 * a + 100 * b + 10 * c + d = 1000 * k + 100 * k + 10 * k + k"
      using k n by simp
    then have "numeral_of (1000 * a + 100 * b + 10 * c + d) = numeral_of (1000 * k + 100 * k + 10 * k + k)"
      by simp
    then have "[digit_char a, digit_char b, digit_char c, digit_char d] =
               [digit_char k, digit_char k, digit_char k, digit_char k]"
      using lt \<open>k < 10\<close> by (simp only: numeral_of_digits)
    then show "a = b \<and> b = c \<and> c = d"
      using lt \<open>k < 10\<close> by (simp add: digit_char_eq)
  qed
  finally show ?thesis .
qed

lemma is_repdigit_set: "length s = 4 \<Longrightarrow> is_repdigit s \<longleftrightarrow> card (set s) = 1"
  by (simp add: is_repdigit_def zfill_length4)

lemma kaprekar_digits:
  assumes lt4: "a < 10" "b < 10" "c < 10" "d < 10"
    and srt4: "sort [a, b, c, d] = [p, q, r, t]"
  defines "s \<equiv> [digit_char a, digit_char b, digit_char c, digit_char d]"
  shows "p \<le> q \<and> q \<le> r \<and> r \<le> t \<and> t < 10"
    and "largest s = [digit_char t, digit_char r, digit_char q, digit_char p]"
    and "smallest s = [digit_char p, digit_char q, digit_char r, digit_char t]"
    and "int_of_str (largest s) = Inr (int (1000 * t + 100 * r + 10 * q + p))"
    and "int_of_str (smallest s) = Inr (int (1000 * p + 100 * q + 10 * r + t))"
    and "is_repdigit s \<longleftrightarrow> p = t"
    and "kaprekar s = Inr (int (999 * (t - p) + 90 * (r - q)))"
    and "kaprekar_once s = Inr (numeral_of (999 * (t - p) + 90 * (r - q)))"
proof -
  have "sorted (sort [a, b, c, d])" by (rule sorted_sort)
  then have le: "p \<le> q" "q \<le> r" "r \<le> t" unfolding srt4 by simp_all
  have "set (sort [a, b, c, d]) = set [a, b, c, d]" by (rule set_sort)
  then have st: "{p, q, r, t} = {a, b, c, d}" unfolding srt4 by simp
  with lt4 have t: "t < 10" by auto
  from le t have lt: "p < 10" "q < 10" "r < 10" by auto
  have "sort (map digit_char [a, b, c, d]) = map digit_char (sort [a, b, c, d])"
    by (rule sort_map_digit_char) (use lt4 in simp)
  then have srt: "sort s = [digit_char p, digit_char q, digit_char r, digit_char t]"
    unfolding s_def srt4 by simp
  have len: "length s = 4" by (simp add: s_def)
  have L: "largest s = [digit_char t, digit_char r, digit_char q, digit_char p]"
    by (simp add: largest_def sorted_py_def srt)
  have S: "smallest s = [digit_char p, digit_char q, digit_char r, digit_char t]"
    by (simp add: smallest_def sorted_py_def srt)
  have iL: "int_of_str (largest s) = Inr (int (1000 * t + 100 * r + 10 * q + p))"
    unfolding L using int_of_str_digits [of t r q p] lt t by simp
  have iS: "int_of_str (smallest s) = Inr (int (1000 * p + 100 * q + 10 * r + t))"
    unfolding S using int_of_str_digits [of p q r t] lt t by simp
  have diff: "int (1000 * t + 100 * r + 10 * q + p) - int (1000 * p + 100 * q + 10 * r + t)
                = int (999 * (t - p) + 90 * (r - q))"
    using le by (simp add: of_nat_diff algebra_simps)
  have bound: "999 * (t - p) + 90 * (r - q) < 10000"
    using le t by linarith
  have K: "kaprekar s = Inr (int (999 * (t - p) + 90 * (r - q)))"
    by (simp only: kaprekar_def iL iS diff sum.case)
  have "kaprekar_once s = Inr (zfill (str_of_int (int (999 * (t - p) + 90 * (r - q)))) 4)"
    by (simp only: kaprekar_once_def Let_def zfill_length4 [OF len] iL iS diff sum.case)
  then have O: "kaprekar_once s = Inr (numeral_of (999 * (t - p) + 90 * (r - q)))"
    by (simp only: zfill_str_of_int_numeral_of [OF bound])
  have "is_repdigit s \<longleftrightarrow> card (set (sort s)) = 1"
    using len by (simp add: is_repdigit_set)
  also have "\<dots> \<longleftrightarrow> is_repdigit [digit_char p, digit_char q, digit_char r, digit_char t]"
    unfolding srt by (simp add: is_repdigit_set)
  also have "\<dots> \<longleftrightarrow> p = q \<and> q = r \<and> r = t"
    using lt t by (rule is_repdigit_digits)
  also have "\<dots> \<longleftrightarrow> p = t"
    using le by auto
  finally have R: "is_repdigit s \<longleftrightarrow> p = t" .
  from le t show "p \<le> q \<and> q \<le> r \<and> r \<le> t \<and> t < 10" by simp
  from L show "largest s = [digit_char t, digit_char r, digit_char q, digit_char p]" .
  from S show "smallest s = [digit_char p, digit_char q, digit_char r, digit_char t]" .
  from iL show "int_of_str (largest s) = Inr (int (1000 * t + 100 * r + 10 * q + p))" .
  from iS show "int_of_str (smallest s) = Inr (int (1000 * p + 100 * q + 10 * r + t))" .
  from R show "is_repdigit s \<longleftrightarrow> p = t" .
  from K show "kaprekar s = Inr (int (999 * (t - p) + 90 * (r - q)))" .
  from O show "kaprekar_once s = Inr (numeral_of (999 * (t - p) + 90 * (r - q)))" .
qed

lemma kaprekar_numeral:
  assumes "is_numeral s"
  shows "\<exists>p q r t. p \<le> q \<and> q \<le> r \<and> r \<le> t \<and> t < 10 \<and>
           largest s = [digit_char t, digit_char r, digit_char q, digit_char p] \<and>
           smallest s = [digit_char p, digit_char q, digit_char r, digit_char t] \<and>
           int_of_str (largest s) = Inr (int (1000 * t + 100 * r + 10 * q + p)) \<and>
           int_of_str (smallest s) = Inr (int (1000 * p + 100 * q + 10 * r + t)) \<and>
           (is_repdigit s \<longleftrightarrow> p = t) \<and>
           kaprekar s = Inr (int (999 * (t - p) + 90 * (r - q))) \<and>
           kaprekar_once s = Inr (numeral_of (999 * (t - p) + 90 * (r - q)))"
proof -
  from is_numeral_digits [OF assms] obtain a b c d
    where lt: "a < 10" "b < 10" "c < 10" "d < 10"
      and s: "s = [digit_char a, digit_char b, digit_char c, digit_char d]"
    by blast
  from sort4 [of a b c d] obtain p q r t where "sort [a, b, c, d] = [p, q, r, t]"
    by blast
  note kaprekar_digits [OF lt this]
  then show ?thesis
    unfolding s by blast
qed

lemma sort4_ex:
  fixes a :: nat
  shows "\<exists>p q r t. sort [a, b, c, d] = [p, q, r, t]"
  using sort4 [of a b c d] by (elim exE conjE) (intro exI)

lemma digit_lt10: "v div 1000 mod 10 < (10::nat)" "v div 100 mod 10 < (10::nat)"
    "v div 10 mod 10 < (10::nat)" "v mod 10 < (10::nat)"
  by simp_all

lemma kaprekar_once_numeral_of:
  "kaprekar_once (numeral_of v) = Inr (numeral_of (kaprekar_value v))"
proof -
  obtain p q r t
    where e: "sort [v div 1000 mod 10, v div 100 mod 10, v div 10 mod 10, v mod 10] = [p, q, r, t]"
    using sort4_ex [of "v div 1000 mod 10" "v div 100 mod 10" "v div 10 mod 10" "v mod 10"]
    by (elim exE)
  have "kaprekar_value v = 999 * (t - p) + 90 * (r - q)"
    unfolding kaprekar_value_def e by simp
  with kaprekar_digits(8) [OF digit_lt10 e] show ?thesis
    unfolding numeral_of_def by (simp only:)
qed

lemma numeral_of_6174: "numeral_of 6174 = ''6174''"
  by (simp add: numeral_of_def digit_char_def char_of_eq_iff)

lemma numeral_of_0: "numeral_of 0 = ''0000''"
  by (simp add: numeral_of_def digit_char_def char_of_eq_iff)

lemma value_converges_within_sound:
  "value_converges_within k v \<Longrightarrow> converges_within k (numeral_of v)"
proof (induction k arbitrary: v)
  case 0
  then show ?case by (simp add: KAPREKAR_CONST_def numeral_of_6174)
next
  case (Suc k)
  from Suc.prems consider "v = 6174" | "value_converges_within k (kaprekar_value v)"
    by auto
  then show ?case
  proof cases
    case 1
    then show ?thesis by (simp add: KAPREKAR_CONST_def numeral_of_6174)
  next
    case 2
    then have "converges_within k (numeral_of (kaprekar_value v))" by (rule Suc.IH)
    then show ?thesis by (simp add: kaprekar_once_numeral_of)
  qed
qed

lemma converges_within_iff:
  "converges_within k s \<longleftrightarrow> (\<exists>j\<le>k. kaprekar_iter j s = Inr KAPREKAR_CONST)"
proof (induction k arbitrary: s)
  case 0
  then show ?case by simp
next
  case (Suc k)
  show ?case
  proof (cases "kaprekar_once s")
    case (Inl e)
    have "(\<exists>j\<le>Suc k. kaprekar_iter j s = Inr KAPREKAR_CONST) \<longleftrightarrow> s = KAPREKAR_CONST"
    proof
      assume "\<exists>j\<le>Suc k. kaprekar_iter j s = Inr KAPREKAR_CONST"
      then obtain j where "kaprekar_iter j s = Inr KAPREKAR_CONST" by blast
      with Inl show "s = KAPREKAR_CONST" by (cases j) simp_all
    next
      assume "s = KAPREKAR_CONST"
      then have "kaprekar_iter 0 s = Inr KAPREKAR_CONST" by simp
      then show "\<exists>j\<le>Suc k. kaprekar_iter j s = Inr KAPREKAR_CONST" by blast
    qed
    with Inl show ?thesis by simp
  next
    case (Inr s')
    have "(\<exists>j\<le>Suc k. kaprekar_iter j s = Inr KAPREKAR_CONST) \<longleftrightarrow>
            s = KAPREKAR_CONST \<or> (\<exists>j\<le>k. kaprekar_iter j s' = Inr KAPREKAR_CONST)"
    proof
      assume "\<exists>j\<le>Suc k. kaprekar_iter j s = Inr KAPREKAR_CONST"
      then obtain j where j: "j \<le> Suc k" "kaprekar_iter j s = Inr KAPREKAR_CONST" by blast
      show "s = KAPREKAR_CONST \<or> (\<exists>j\<le>k. kaprekar_iter j s' = Inr KAPREKAR_CONST)"
      proof (cases j)
        case 0
        with j show ?thesis by simp
      next
        case (Suc i)
        with j Inr have "i \<le> k" "kaprekar_iter i s' = Inr KAPREKAR_CONST" by simp_all
        then show ?thesis by blast
      qed
    next
      assume "s = KAPREKAR_CONST \<or> (\<exists>j\<le>k. kaprekar_iter j s' = Inr KAPREKAR_CONST)"
      then show "\<exists>j\<le>Suc k. kaprekar_iter j s = Inr KAPREKAR_CONST"
      proof
        assume "s = KAPREKAR_CONST"
        then have "kaprekar_iter 0 s = Inr KAPREKAR_CONST" by simp
        then show ?thesis by blast
      next
        assume "\<exists>j\<le>k. kaprekar_iter j s' = Inr KAPREKAR_CONST"
        then obtain j where "j \<le> k" "kaprekar_iter j s' = Inr KAPREKAR_CONST" by blast
        with Inr have "Suc j \<le> Suc k" "kaprekar_iter (Suc j) s = Inr KAPREKAR_CONST" by simp_all
        then show ?thesis by blast
      qed
    qed
    with Inr Suc.IH [of s'] show ?thesis by simp
  qed
qed

lemma step_values_list: "step_values = [999, 1089, 1998, 2088, 2178, 2997, 3087, 3177, 3267, 3996, 4086, 4176, 4266, 4356, 4995, 5085, 5175, 5265, 5355, 5445, 5994, 6084, 6174, 6264, 6354, 6444, 6534, 6993, 7083, 7173, 7263, 7353, 7443, 7533, 7623, 7992, 8082, 8172, 8262, 8352, 8442, 8532, 8622, 8712, 8991, 9081, 9171, 9261, 9351, 9441, 9531, 9621, 9711, 9801]"
  by (simp add: step_values_def upt_rec)

lemma step_values_bounds: "list_all (\<lambda>v. v < 10000 \<and> v mod 1111 \<noteq> 0) step_values"
  unfolding step_values_list by simp

lemma step_values_converge:
  "list_all (value_converges_within (Suc (Suc (Suc (Suc (Suc (Suc 0))))))) step_values"
  unfolding step_values_list by (simp add: kaprekar_value_def)

lemma mem_concat_map: "x \<in> set xs \<Longrightarrow> z \<in> set (f x) \<Longrightarrow> z \<in> set (concat (map f xs))"
  by auto

lemma step_values_member:
  assumes "1 \<le> x" "x \<le> 9" "y \<le> x"
  shows "999 * x + 90 * y \<in> set step_values"
proof -
  have x: "x \<in> set [1..<10]"
    unfolding set_upt using assms by simp
  have "y \<in> {0..<Suc x}"
    using assms by simp
  then have y: "999 * x + 90 * y \<in> set (map (\<lambda>y. 999 * x + 90 * y) [0..<Suc x])"
    unfolding set_map set_upt by (rule imageI)
  show ?thesis
    unfolding step_values_def
    by (rule mem_concat_map [where f = "\<lambda>x. map (\<lambda>y. 999 * x + 90 * y) [0..<Suc x]", OF x y])
qed

lemma is_repdigit_0000: "is_repdigit ''0000''"
  by (simp add: is_repdigit_def zfill_def)

lemma kaprekar_once_nonrep:
  assumes "is_numeral s" "\<not> is_repdigit s"
  shows "\<exists>v\<in>set step_values. kaprekar_once s = Inr (numeral_of v)"
proof -
  from kaprekar_numeral [OF assms(1)] obtain p q r t
    where le: "p \<le> q" "q \<le> r" "r \<le> t" "t < 10"
      and rep: "is_repdigit s \<longleftrightarrow> p = t"
      and once: "kaprekar_once s = Inr (numeral_of (999 * (t - p) + 90 * (r - q)))"
    by blast
  from rep assms(2) le have "1 \<le> t - p" "t - p \<le> 9" "r - q \<le> t - p"
    by auto
  then have "999 * (t - p) + 90 * (r - q) \<in> set step_values"
    by (rule step_values_member)
  with once show ?thesis by blast
qed

lemma step_values_props:
  assumes "v \<in> set step_values"
  shows "v < 10000" and "\<not> is_repdigit (numeral_of v)"
    and "converges_within 6 (numeral_of v)"
proof -
  from assms step_values_bounds show lt: "v < 10000"
    by (simp add: list_all_iff)
  from assms step_values_bounds have "v mod 1111 \<noteq> 0"
    by (simp add: list_all_iff)
  with lt show "\<not> is_repdigit (numeral_of v)"
    by (simp add: is_repdigit_numeral_of)
  from assms step_values_converge
  have "value_converges_within (Suc (Suc (Suc (Suc (Suc (Suc 0)))))) v"
    by (simp add: list_all_iff)
  then have "converges_within (Suc (Suc (Suc (Suc (Suc (Suc 0)))))) (numeral_of v)"
    by (rule value_converges_within_sound)
  moreover have "Suc (Suc (Suc (Suc (Suc (Suc 0))))) = 6" by simp
  ultimately show "converges_within 6 (numeral_of v)" by (simp only:)
qed

lemma kaprekar_once_invariant:
  assumes "is_numeral s" "\<not> is_repdigit s"
  shows "\<exists>t. kaprekar_once s = Inr t \<and> is_numeral t \<and> \<not> is_repdigit t \<and> converges_within 6 t"
proof -
  from kaprekar_once_nonrep [OF assms] obtain v
    where "v \<in> set step_values" "kaprekar_once s = Inr (numeral_of v)"
    by blast
  with step_values_props [of v] is_numeral_numeral_of [of v] show ?thesis
    by blast
qed

lemma converges_within_7:
  assumes "is_numeral s" "\<not> is_repdigit s"
  shows "converges_within 7 s"
proof -
  from kaprekar_once_invariant [OF assms] obtain t
    where "kaprekar_once s = Inr t" "converges_within 6 t"
    by blast
  then have "converges_within (Suc 6) s"
    unfolding converges_within.simps by simp
  moreover have "Suc 6 = 7" by simp
  ultimately show ?thesis by (simp only:)
qed

lemma kaprekar_iter_invariant:
  assumes "is_numeral s" "\<not> is_repdigit s"
  shows "\<exists>t. kaprekar_iter k s = Inr t \<and> is_numeral t \<and> \<not> is_repdigit t"
  using assms
proof (induction k arbitrary: s)
  case 0
  then show ?case by simp
next
  case (Suc k)
  from kaprekar_once_invariant [OF Suc.prems] obtain t
    where t: "kaprekar_once s = Inr t" "is_numeral t" "\<not> is_repdigit t"
    by blast
  from Suc.IH [OF t(2,3)] t(1) show ?case by simp
qed

lemma kaprekar_iter_never_0000:
  assumes "is_numeral s" "\<not> is_repdigit s"
  shows "kaprekar_iter k s \<noteq> Inr ''0000''"
  using kaprekar_iter_invariant [OF assms, of k] is_repdigit_0000 by auto

lemma kaprekar_once_is_numeral:
  assumes "is_numeral s"
  shows "\<exists>t. kaprekar_once s = Inr t \<and> is_numeral t"
  using kaprekar_numeral [OF assms] is_numeral_numeral_of by blast

lemma least_convergence:
  assumes "converges_within n s"
  shows "\<exists>k\<le>n. kaprekar_iter k s = Inr KAPREKAR_CONST \<and>
           (\<forall>j<k. kaprekar_iter j s \<noteq> Inr KAPREKAR_CONST)"
proof -
  define P where "P j \<longleftrightarrow> kaprekar_iter j s = Inr KAPREKAR_CONST" for j
  from assms obtain j where j: "j \<le> n" "P j"
    unfolding P_def converges_within_iff by blast
  define k where "k = (LEAST j. P j)"
  have "P k" unfolding k_def using j(2) by (rule LeastI)
  moreover have "k \<le> j" unfolding k_def using j(2) by (rule Least_le)
  moreover have "\<not> P i" if "i < k" for i
    using that unfolding k_def by (rule not_less_Least)
  ultimately show ?thesis
    using j(1) unfolding P_def by (intro exI [of _ k]) auto
qed

lemma kaprekar_once_0000: "kaprekar_once ''0000'' = Inr ''0000''"
  using kaprekar_once_numeral_of [of 0]
  by (simp add: numeral_of_0 kaprekar_value_def)

lemma kaprekar_iter_0000: "kaprekar_iter k ''0000'' = Inr ''0000''"
  by (induction k) (simp_all add: kaprekar_once_0000)

lemma loop_converged:
  assumes "kaprekar_iter k s = Inr KAPREKAR_CONST"
    and "\<forall>j<k. kaprekar_iter j s \<noteq> Inr KAPREKAR_CONST"
    and "c + int k \<le> m \<or> k = 0"
  shows "steps_to_kaprekar_loop s c m = Inr (Some (c + int k))"
  using assms
proof (induction k arbitrary: s c)
  case 0
  then have "s = KAPREKAR_CONST" by simp
  then show ?case
    by (subst steps_to_kaprekar_loop.simps) simp
next
  case (Suc k)
  from Suc.prems(2) have ne: "s \<noteq> KAPREKAR_CONST" by auto
  from Suc.prems(3) have c: "c < m" by auto
  from Suc.prems(1) obtain s' where s': "kaprekar_once s = Inr s'"
    by (cases "kaprekar_once s") simp_all
  with Suc.prems(1) have it: "kaprekar_iter k s' = Inr KAPREKAR_CONST" by simp
  have "kaprekar_iter (Suc 0) s = Inr s'" using s' by simp
  have nz: "s' \<noteq> ''0000''"
  proof
    assume "s' = ''0000''"
    with it have "Inr ''0000'' = (Inr KAPREKAR_CONST :: error + string)"
      by (simp add: kaprekar_iter_0000)
    then show False by (simp add: KAPREKAR_CONST_def)
  qed
  have least: "\<forall>j<k. kaprekar_iter j s' \<noteq> Inr KAPREKAR_CONST"
  proof (intro allI impI)
    fix j assume "j < k"
    then have "Suc j < Suc k" by simp
    with Suc.prems(2) have "kaprekar_iter (Suc j) s \<noteq> Inr KAPREKAR_CONST" by blast
    with s' show "kaprekar_iter j s' \<noteq> Inr KAPREKAR_CONST" by simp
  qed
  from Suc.prems(3) have "c + 1 + int k \<le> m \<or> k = 0" by auto
  from Suc.IH [OF it least this]
  have "steps_to_kaprekar_loop s' (c + 1) m = Inr (Some (c + 1 + int k))" .
  with ne c s' nz show ?case
    by (subst steps_to_kaprekar_loop.simps) simp
qed

lemma loop_sound:
  "steps_to_kaprekar_loop s c m = Inr (Some r) \<Longrightarrow>
     c \<le> r \<and> kaprekar_iter (nat (r - c)) s = Inr KAPREKAR_CONST \<and> (r \<le> m \<or> r = c)"
proof (induction s c m rule: steps_to_kaprekar_loop.induct)
  case (1 s steps max_iter)
  show ?case
  proof (cases "s \<noteq> KAPREKAR_CONST \<and> steps < max_iter")
    case False
    with "1.prems" have "s = KAPREKAR_CONST \<and> r = steps"
      by (subst (asm) steps_to_kaprekar_loop.simps) (auto split: if_splits)
    then show ?thesis by simp
  next
    case True
    with "1.prems" obtain s' where s': "kaprekar_once s = Inr s'" "s' \<noteq> ''0000''"
      and rec: "steps_to_kaprekar_loop s' (steps + 1) max_iter = Inr (Some r)"
      by (subst (asm) steps_to_kaprekar_loop.simps) (auto split: sum.splits if_splits)
    from "1.IH" [OF True s'(1) s'(2) rec]
    have ih: "steps + 1 \<le> r" "kaprekar_iter (nat (r - (steps + 1))) s' = Inr KAPREKAR_CONST"
      "r \<le> max_iter \<or> r = steps + 1"
      by simp_all
    from ih(1) have "nat (r - steps) = Suc (nat (r - (steps + 1)))" by simp
    with ih s' True show ?thesis by auto
  qed
qed

lemma loop_failed:
  assumes "is_numeral s"
    and "\<forall>k. k = 0 \<or> int k \<le> m - c \<longrightarrow> kaprekar_iter k s \<noteq> Inr KAPREKAR_CONST"
  shows "steps_to_kaprekar_loop s c m = Inr None"
  using assms
proof (induction s c m rule: steps_to_kaprekar_loop.induct)
  case (1 s steps max_iter)
  from "1.prems"(2) have ne: "s \<noteq> KAPREKAR_CONST" by auto
  show ?case
  proof (cases "steps < max_iter")
    case False
    with ne show ?thesis
      by (subst steps_to_kaprekar_loop.simps) simp
  next
    case True
    from kaprekar_once_is_numeral [OF "1.prems"(1)] obtain s'
      where s': "kaprekar_once s = Inr s'" "is_numeral s'"
      by blast
    show ?thesis
    proof (cases "s' = ''0000''")
      case True
      with ne \<open>steps < max_iter\<close> s' show ?thesis
        by (subst steps_to_kaprekar_loop.simps) simp
    next
      case False
      have "\<forall>k. k = 0 \<or> int k \<le> max_iter - (steps + 1) \<longrightarrow> kaprekar_iter k s' \<noteq> Inr KAPREKAR_CONST"
      proof (intro allI impI)
        fix k assume "k = 0 \<or> int k \<le> max_iter - (steps + 1)"
        with True have "int (Suc k) \<le> max_iter - steps" by auto
        with "1.prems"(2) have "kaprekar_iter (Suc k) s \<noteq> Inr KAPREKAR_CONST" by blast
        with s' show "kaprekar_iter k s' \<noteq> Inr KAPREKAR_CONST" by simp
      qed
      with "1.IH" [OF _ s'(1) False s'(2)] ne True
      have "steps_to_kaprekar_loop s' (steps + 1) max_iter = Inr None" by simp
      with ne True s' False show ?thesis
        by (subst steps_to_kaprekar_loop.simps) simp
    qed
  qed
qed

section \<open>Evaluation on concrete numerals\<close>

lemma digit_char_simps:
  "digit_char 0 = CHR ''0''" "digit_char (Suc 0) = CHR ''1''" "digit_char 1 = CHR ''1''"
  "digit_char 2 = CHR ''2''" "digit_char 3 = CHR ''3''" "digit_char 4 = CHR ''4''"
  "digit_char 5 = CHR ''5''" "digit_char 6 = CHR ''6''" "digit_char 7 = CHR ''7''"
  "digit_char 8 = CHR ''8''" "digit_char 9 = CHR ''9''"
  by (simp_all add: digit_char_def char_of_eq_iff)

lemma replicate_simps:
  "replicate 4 x = [x, x, x, x]" "replicate 3 x = [x, x, x]" "replicate 2 x = [x, x]"
  by (simp_all add: numeral_eq_Suc)

lemmas eval_simps = replicate_simps
  kaprekar_once_def kaprekar_def zfill_def largest_def smallest_def sorted_py_def int_of_str_def
  isdecimal_def str_of_int_def str_of_nat.simps digit_char_simps is_repdigit_def
  KAPREKAR_CONST_def max_iter_default_def steps_to_kaprekar_def steps_to_kaprekar_loop.simps
  is_numeral_def

section \<open>The driver on numerals\<close>

lemma zfill_idem: "zfill (zfill s 4) 4 = zfill s 4"
proof -
  have "4 \<le> length (zfill s 4)"
    by (cases s) (auto simp: zfill_def)
  then show ?thesis by (simp add: zfill_def)
qed

lemma steps_to_kaprekar_repdigit:
  "is_repdigit s \<Longrightarrow> steps_to_kaprekar s m = Inr None"
  by (simp add: steps_to_kaprekar_def is_repdigit_def zfill_idem)

lemma steps_to_kaprekar_numeral:
  assumes "is_numeral s" "\<not> is_repdigit s"
  shows "steps_to_kaprekar s m = steps_to_kaprekar_loop s 0 m"
proof -
  from assms(1) have "zfill s 4 = s" by (simp add: is_numeral_def zfill_length4)
  with assms(2) show ?thesis by (simp add: steps_to_kaprekar_def)
qed

lemma steps_to_kaprekar_converges:
  assumes "is_numeral s" "\<not> is_repdigit s" "7 \<le> m"
  shows "\<exists>k\<le>7. steps_to_kaprekar s m = Inr (Some (int k)) \<and>
           kaprekar_iter k s = Inr KAPREKAR_CONST \<and>
           (\<forall>j<k. kaprekar_iter j s \<noteq> Inr KAPREKAR_CONST)"
proof -
  from least_convergence [OF converges_within_7 [OF assms(1,2)]] obtain k
    where k: "k \<le> 7" "kaprekar_iter k s = Inr KAPREKAR_CONST"
      "\<forall>j<k. kaprekar_iter j s \<noteq> Inr KAPREKAR_CONST"
    by blast
  from k(1) assms(3) have "0 + int k \<le> m \<or> k = 0" by simp
  from loop_converged [OF k(2,3) this]
  have "steps_to_kaprekar s m = Inr (Some (int k))"
    by (simp add: steps_to_kaprekar_numeral [OF assms(1,2)])
  with k show ?thesis by blast
qed

section \<open>The loop of the script\<close>

lemma kaprekar_zfill:
  assumes "is_numeral s"
  shows "\<exists>d t. kaprekar s = Inr d \<and> kaprekar_once s = Inr t \<and> zfill (str_of_int d) 4 = t \<and>
           is_numeral t"
proof -
  from kaprekar_numeral [OF assms] obtain p q r t
    where le: "p \<le> q" "q \<le> r" "r \<le> t" "t < 10"
      and k: "kaprekar s = Inr (int (999 * (t - p) + 90 * (r - q)))"
      and once: "kaprekar_once s = Inr (numeral_of (999 * (t - p) + 90 * (r - q)))"
    by blast
  from le have "999 * (t - p) + 90 * (r - q) < 10000" by linarith
  then have "zfill (str_of_int (int (999 * (t - p) + 90 * (r - q)))) 4 =
               numeral_of (999 * (t - p) + 90 * (r - q))"
    by (rule zfill_str_of_int_numeral_of)
  with k once is_numeral_numeral_of show ?thesis by blast
qed

lemma main_loop_converged:
  assumes "is_numeral s" "kaprekar_iter k s = Inr KAPREKAR_CONST"
    and "\<forall>j<k. kaprekar_iter j s \<noteq> Inr KAPREKAR_CONST"
  shows "main_loop s c = Some (Inr (c + int k))"
  using assms
proof (induction k arbitrary: s c)
  case 0
  then have "s = ''6174''" by (simp add: KAPREKAR_CONST_def)
  then show ?case
    by (subst main_loop.simps) simp
next
  case (Suc k)
  from Suc.prems(3) have ne: "s \<noteq> ''6174''" by (auto simp: KAPREKAR_CONST_def)
  from kaprekar_zfill [OF Suc.prems(1)] obtain d s'
    where d: "kaprekar s = Inr d" "kaprekar_once s = Inr s'" "zfill (str_of_int d) 4 = s'"
      "is_numeral s'"
    by blast
  from Suc.prems(2) d(2) have it: "kaprekar_iter k s' = Inr KAPREKAR_CONST" by simp
  have least: "\<forall>j<k. kaprekar_iter j s' \<noteq> Inr KAPREKAR_CONST"
  proof (intro allI impI)
    fix j assume "j < k"
    then have "Suc j < Suc k" by simp
    with Suc.prems(3) have "kaprekar_iter (Suc j) s \<noteq> Inr KAPREKAR_CONST" by blast
    with d(2) show "kaprekar_iter j s' \<noteq> Inr KAPREKAR_CONST" by simp
  qed
  from Suc.IH [OF d(4) it least]
  have "main_loop s' (c + 1) = Some (Inr (c + 1 + int k))" .
  with ne d show ?case
    by (subst main_loop.simps) simp
qed

section \<open>The batch loop\<close>

lemma render_numeral_of:
  assumes "0 \<le> n" "n \<le> 9999"
  shows "zfill (str_of_int n) 4 = numeral_of (nat n)"
proof -
  from assms have "nat n < 10000" "int (nat n) = n" by simp_all
  with zfill_str_of_int_numeral_of [of "nat n"] show ?thesis by simp
qed

lemma steps_to_kaprekar_numeral_total:
  assumes "is_numeral s"
  shows "\<exists>r. steps_to_kaprekar s max_iter_default = Inr r"
proof (cases "is_repdigit s")
  case True
  then show ?thesis by (simp add: steps_to_kaprekar_repdigit)
next
  case False
  have "7 \<le> max_iter_default" by (simp add: max_iter_default_def)
  from steps_to_kaprekar_converges [OF assms False this] show ?thesis by blast
qed

lemma compute_all_loop_eq:
  assumes "\<forall>n\<in>set ns. \<exists>r. steps_to_kaprekar (zfill (str_of_int n) 4) max_iter_default = Inr r"
  shows "compute_all_loop ns counts failures =
           Inr (counts @ List.map_filter converged_steps
                           (filter (\<lambda>s. \<not> is_repdigit s) (map (\<lambda>n. zfill (str_of_int n) 4) ns)),
                failures @ filter is_failure
                           (filter (\<lambda>s. \<not> is_repdigit s) (map (\<lambda>n. zfill (str_of_int n) 4) ns)))"
  using assms
proof (induction ns arbitrary: counts failures)
  case Nil
  show ?case by (simp add: map_filter_simps)
next
  case (Cons n ns)
  let ?s = "zfill (str_of_int n) 4"
  from Cons.prems have rest: "\<forall>n\<in>set ns. \<exists>r. steps_to_kaprekar (zfill (str_of_int n) 4) max_iter_default = Inr r"
    by simp
  note IH = Cons.IH [OF rest]
  show ?case
  proof (cases "is_repdigit ?s")
    case True
    then show ?thesis by (simp add: IH)
  next
    case False
    from Cons.prems obtain r where r: "steps_to_kaprekar ?s max_iter_default = Inr r"
      by auto
    show ?thesis
    proof (cases r)
      case None
      with r have "converged_steps ?s = None" "is_failure ?s"
        by (simp_all add: converged_steps_def is_failure_def)
      with r None False show ?thesis
        by (simp add: IH)
    next
      case (Some st)
      with r have "converged_steps ?s = Some st" "\<not> is_failure ?s"
        by (simp_all add: converged_steps_def is_failure_def)
      with r Some False show ?thesis
        by (simp add: IH)
    qed
  qed
qed

lemma all_numerals_total:
  "\<forall>n\<in>set [0..9999]. \<exists>r. steps_to_kaprekar (zfill (str_of_int n) 4) max_iter_default = Inr r"
proof
  fix n :: int assume "n \<in> set [0..9999]"
  then have "0 \<le> n" "n \<le> 9999" by simp_all
  then have "zfill (str_of_int n) 4 = numeral_of (nat n)" by (rule render_numeral_of)
  with steps_to_kaprekar_numeral_total [OF is_numeral_numeral_of [of "nat n"]]
  show "\<exists>r. steps_to_kaprekar (zfill (str_of_int n) 4) max_iter_default = Inr r" by simp
qed

lemma compute_all_eq:
  "compute_all = Inr (List.map_filter converged_steps analyzable, filter is_failure analyzable)"
  unfolding compute_all_def analyzable_def all_numerals_def
  using compute_all_loop_eq [OF all_numerals_total, of "[]" "[]"] by simp

lemma analyzable_numeral:
  assumes "s \<in> set analyzable"
  shows "is_numeral s" "\<not> is_repdigit s"
proof -
  from assms obtain n where n: "n \<in> set [0..9999]" "s = zfill (str_of_int n) 4"
    and nr: "\<not> is_repdigit s"
    unfolding analyzable_def all_numerals_def by auto
  from n(1) have "0 \<le> n" "n \<le> 9999" by simp_all
  then have "zfill (str_of_int n) 4 = numeral_of (nat n)" by (rule render_numeral_of)
  with n(2) show "is_numeral s" by (simp add: is_numeral_numeral_of)
  from nr show "\<not> is_repdigit s" .
qed

lemma analyzable_converges:
  assumes "s \<in> set analyzable"
  shows "\<exists>k\<le>7. steps_to_kaprekar s max_iter_default = Inr (Some (int k))"
proof -
  have "7 \<le> max_iter_default" by (simp add: max_iter_default_def)
  from steps_to_kaprekar_converges [OF analyzable_numeral [OF assms] this]
  show ?thesis by blast
qed

lemma no_failures: "filter is_failure analyzable = []"
proof -
  have "\<not> is_failure s" if "s \<in> set analyzable" for s
    using analyzable_converges [OF that] by (auto simp: is_failure_def)
  then show ?thesis by (simp add: filter_empty_conv)
qed

lemma length_map_filter_partition:
  assumes "\<forall>s\<in>set xs. \<exists>r. steps_to_kaprekar s max_iter_default = Inr r"
  shows "length (List.map_filter converged_steps xs) + length (filter is_failure xs) = length xs"
  using assms
proof (induction xs)
  case Nil
  show ?case by (simp add: map_filter_simps)
next
  case (Cons s xs)
  then obtain r where r: "steps_to_kaprekar s max_iter_default = Inr r" by auto
  from Cons have IH: "length (List.map_filter converged_steps xs) + length (filter is_failure xs) = length xs"
    by simp
  have c: "converged_steps s = r" using r by (cases r) (simp_all add: converged_steps_def)
  have f: "is_failure s \<longleftrightarrow> r = None" using r by (simp add: is_failure_def)
  from IH show ?case
    by (cases r) (simp_all add: c f)
qed

lemma repdigit_render_iff:
  assumes "0 \<le> n" "n \<le> 9999"
  shows "is_repdigit (zfill (str_of_int n) 4) \<longleftrightarrow> n mod 1111 = 0"
proof -
  from assms have lt: "nat n < 10000" by simp
  have "is_repdigit (zfill (str_of_int n) 4) \<longleftrightarrow> nat n mod 1111 = 0"
    by (simp add: render_numeral_of [OF assms] is_repdigit_numeral_of [OF lt])
  also have "\<dots> \<longleftrightarrow> int (nat n mod 1111) = 0"
    by simp
  also have "int (nat n mod 1111) = int (nat n) mod 1111"
    by (simp add: zmod_int)
  also have "int (nat n) = n"
    using assms by simp
  finally show ?thesis .
qed

lemma repdigit_values: "{n \<in> {0..9999::int}. n mod 1111 = 0} = (\<lambda>k. 1111 * k) ` {0..9}"
proof (intro equalityI subsetI)
  fix n :: int assume "n \<in> {n \<in> {0..9999}. n mod 1111 = 0}"
  then have n: "0 \<le> n" "n \<le> 9999" "n mod 1111 = 0" by simp_all
  have "1111 * (n div 1111) + n mod 1111 = n" by (rule mult_div_mod_eq)
  with n have "n = 1111 * (n div 1111)" by simp
  moreover from n have "0 \<le> n div 1111" "n div 1111 \<le> 9" by simp_all
  ultimately show "n \<in> (\<lambda>k. 1111 * k) ` {0..9}" by (intro image_eqI [of _ _ "n div 1111"]) simp_all
next
  fix n :: int assume "n \<in> (\<lambda>k. 1111 * k) ` {0..9}"
  then obtain k where "n = 1111 * k" "0 \<le> k" "k \<le> 9" by auto
  then show "n \<in> {n \<in> {0..9999}. n mod 1111 = 0}" by simp
qed

lemma int_range_0_9: "{0..9::int} = {0, 1, 2, 3, 4, 5, 6, 7, 8, 9}"
proof -
  have "{0..9::int} = set [0..9]" by simp
  also have "[0..9::int] = [0, 1, 2, 3, 4, 5, 6, 7, 8, 9]" by (simp add: upto_rec1)
  finally show ?thesis by simp
qed

lemma repdigit_ints:
  "filter (\<lambda>n. n mod 1111 = 0) [0..9999::int] =
     [0, 1111, 2222, 3333, 4444, 5555, 6666, 7777, 8888, 9999]"
proof (rule sorted_distinct_set_unique)
  show "sorted (filter (\<lambda>n. n mod 1111 = 0) [0..9999::int])"
    by (rule sorted_wrt_filter) simp
  show "distinct (filter (\<lambda>n. n mod 1111 = 0) [0..9999::int])"
    by simp
  show "sorted [0, 1111, 2222, 3333, 4444, 5555, 6666, 7777, 8888, 9999 :: int]"
    by simp
  show "distinct [0, 1111, 2222, 3333, 4444, 5555, 6666, 7777, 8888, 9999 :: int]"
    by simp
  have "set (filter (\<lambda>n. n mod 1111 = 0) [0..9999::int]) = {n \<in> {0..9999::int}. n mod 1111 = 0}"
    by auto
  also have "\<dots> = (\<lambda>k. 1111 * k) ` {0, 1, 2, 3, 4, 5, 6, 7, 8, 9}"
    by (simp only: repdigit_values int_range_0_9)
  also have "\<dots> = set [0, 1111, 2222, 3333, 4444, 5555, 6666, 7777, 8888, 9999]"
    by simp
  finally show "set (filter (\<lambda>n. n mod 1111 = 0) [0..9999::int]) =
      set [0, 1111, 2222, 3333, 4444, 5555, 6666, 7777, 8888, 9999]" .
qed

lemma skipped_numerals:
  "filter is_repdigit all_numerals =
     [''0000'', ''1111'', ''2222'', ''3333'', ''4444'', ''5555'', ''6666'', ''7777'', ''8888'', ''9999'']"
proof -
  have "filter (\<lambda>n. is_repdigit (zfill (str_of_int n) 4)) [0..9999] =
          filter (\<lambda>n. n mod 1111 = 0) [0..9999]"
    by (rule filter_cong) (simp_all add: repdigit_render_iff)
  then have "filter is_repdigit all_numerals =
          map (\<lambda>n. zfill (str_of_int n) 4) [0, 1111, 2222, 3333, 4444, 5555, 6666, 7777, 8888, 9999]"
    by (simp add: all_numerals_def filter_map comp_def repdigit_ints)
  also have "\<dots> = [''0000'', ''1111'', ''2222'', ''3333'', ''4444'', ''5555'', ''6666'', ''7777'', ''8888'', ''9999'']"
    by (simp add: eval_simps)
  finally show ?thesis .
qed

lemma length_skipped: "length (filter is_repdigit all_numerals) = 10"
  by (simp add: skipped_numerals)

lemma length_analyzable: "length analyzable = 9990"
proof -
  have "length (filter is_repdigit all_numerals) + length analyzable = length all_numerals"
    unfolding analyzable_def by (rule sum_length_filter_compl)
  moreover have "length all_numerals = 10000" by (simp add: all_numerals_def)
  ultimately show ?thesis using length_skipped by simp
qed

section \<open>The operation as the specification words it, on numerals\<close>

lemma digit_value_digit_char: "d < 10 \<Longrightarrow> digit_value (digit_char d) = d"
  by (simp add: digit_value_def of_char_digit_char)

lemma kaprekarStep_digits:
  assumes "a < 10" "b < 10" "c < 10" "d < 10"
    and "sort [a, b, c, d] = [p, q, r, t]"
  shows "kaprekarStep [digit_char a, digit_char b, digit_char c, digit_char d] =
           numeral_of (999 * (t - p) + 90 * (r - q))"
proof -
  have "sorted (sort [a, b, c, d])" by (rule sorted_sort)
  then have le: "p \<le> q" "q \<le> r" "r \<le> t" unfolding assms(5) by simp_all
  have digits: "map digit_value [digit_char a, digit_char b, digit_char c, digit_char d] = [a, b, c, d]"
    using assms(1-4) by (simp add: digit_value_digit_char)
  have desc: "base10 (rev [p, q, r, t]) = 1000 * t + 100 * r + 10 * q + p"
    by simp
  have asc: "base10 [p, q, r, t] = 1000 * p + 100 * q + 10 * r + t"
    by simp
  have "nat (int (1000 * t + 100 * r + 10 * q + p) - int (1000 * p + 100 * q + 10 * r + t)) =
          999 * (t - p) + 90 * (r - q)"
    using le by linarith
  then show ?thesis
    by (simp only: kaprekarStep_def Let_def digits assms(5) desc asc)
qed

lemma kaprekar_once_kaprekarStep:
  assumes "is_numeral s"
  shows "kaprekar_once s = Inr (kaprekarStep s)"
proof -
  from is_numeral_digits [OF assms] obtain a b c d
    where lt: "a < 10" "b < 10" "c < 10" "d < 10"
      and s: "s = [digit_char a, digit_char b, digit_char c, digit_char d]"
    by blast
  obtain p q r t where e: "sort [a, b, c, d] = [p, q, r, t]"
    using sort4_ex [of a b c d] by (elim exE)
  from kaprekar_digits(8) [OF lt e] kaprekarStep_digits [OF lt e] show ?thesis
    unfolding s by (simp only:)
qed

lemma kaprekar_iter_numeral:
  "kaprekar_iter (numeral n) s =
     (case kaprekar_once s of Inl e \<Rightarrow> Inl e | Inr s' \<Rightarrow> kaprekar_iter (pred_numeral n) s')"
  by (simp add: numeral_eq_Suc)

lemma kaprekar_iter_1:
  "kaprekar_iter 1 s = kaprekar_once s"
  by (simp split: sum.split)

section \<open>The driver returns on every numeral\<close>

lemma steps_to_kaprekar_total:
  assumes "is_numeral s"
  shows "\<exists>result. steps_to_kaprekar s m = Inr result"
proof (cases "is_repdigit s")
  case True
  then show ?thesis by (simp add: steps_to_kaprekar_repdigit)
next
  case False
  note loop = steps_to_kaprekar_numeral [OF assms False]
  show ?thesis
  proof (cases "\<exists>j. (j = 0 \<or> int j \<le> m) \<and> kaprekar_iter j s = Inr KAPREKAR_CONST")
    case True
    then obtain j where j: "j = 0 \<or> int j \<le> m" "kaprekar_iter j s = Inr KAPREKAR_CONST"
      by blast
    from j(2) have "converges_within j s"
      unfolding converges_within_iff by blast
    from least_convergence [OF this] obtain k
      where k: "k \<le> j" "kaprekar_iter k s = Inr KAPREKAR_CONST"
        "\<forall>i<k. kaprekar_iter i s \<noteq> Inr KAPREKAR_CONST"
      by blast
    from k(1) j(1) have "0 + int k \<le> m \<or> k = 0" by auto
    from loop_converged [OF k(2,3) this] show ?thesis
      by (simp add: loop)
  next
    case False
    have "\<forall>k. k = 0 \<or> int k \<le> m - 0 \<longrightarrow> kaprekar_iter k s \<noteq> Inr KAPREKAR_CONST"
    proof (intro allI impI)
      fix k assume "k = 0 \<or> int k \<le> m - 0"
      then have "k = 0 \<or> int k \<le> m" by simp
      with False show "kaprekar_iter k s \<noteq> Inr KAPREKAR_CONST" by blast
    qed
    with assms have "steps_to_kaprekar_loop s 0 m = Inr None" by (rule loop_failed)
    then show ?thesis by (simp add: loop)
  qed
qed

section \<open>The claims\<close>

text \<open>
  Claim C1. For every numeral of four decimal digits, \<open>kaprekar_once\<close> returns what the
  specification describes: the digits sorted in descending and in ascending order, both read
  as base-10 integers, the ascending value subtracted from the descending one, and the
  difference written with exactly four characters, zeros on the left. The script's
  \<open>kaprekar\<close> followed by \<open>str\<close> and \<open>zfill(4)\<close> gives the same string. On \<open>3524\<close> the
  largest arrangement is \<open>5432\<close>, the smallest \<open>2345\<close>, the difference 3087 and the result
  \<open>3087\<close>.
\<close>

theorem C1_kaprekar_once_is_kaprekarStep:
  assumes "is_numeral s"
  shows "kaprekar_once s = Inr (kaprekarStep s) \<and>
         (\<exists>difference. kaprekar s = Inr difference \<and>
            zfill (str_of_int difference) 4 = kaprekarStep s) \<and>
         length (kaprekarStep s) = 4 \<and>
         largest ''3524'' = ''5432'' \<and> smallest ''3524'' = ''2345'' \<and>
         kaprekar ''3524'' = Inr 3087 \<and> kaprekar_once ''3524'' = Inr ''3087''"
proof -
  have once: "kaprekar_once s = Inr (kaprekarStep s)"
    using assms by (rule kaprekar_once_kaprekarStep)
  from kaprekar_zfill [OF assms] obtain d t
    where "kaprekar s = Inr d" "kaprekar_once s = Inr t" "zfill (str_of_int d) 4 = t"
      "is_numeral t"
    by blast
  with once have script: "\<exists>difference. kaprekar s = Inr difference \<and>
      zfill (str_of_int difference) 4 = kaprekarStep s"
    and len: "length (kaprekarStep s) = 4"
    by (auto simp: is_numeral_def)
  have ex: "largest ''3524'' = ''5432''" "smallest ''3524'' = ''2345''"
    "kaprekar ''3524'' = Inr 3087" "kaprekar_once ''3524'' = Inr ''3087''"
    by (simp_all add: eval_simps)
  from once script len ex show ?thesis by simp
qed

theorem C1_witness:
  "is_numeral ''3524'' \<and> kaprekarStep ''3524'' = ''3087'' \<and>
   kaprekar_once ''3524'' = Inr (kaprekarStep ''3524'')"
proof -
  have h: "is_numeral ''3524''" by (simp add: eval_simps)
  have "kaprekarStep ''3524'' = ''3087''"
    by (simp add: kaprekarStep_def digit_value_def numeral_of_def digit_char_simps)
  with h C1_kaprekar_once_is_kaprekarStep [OF h] show ?thesis by simp
qed

text \<open>
  Claim C2. For every numeral of four digits \<open>s\<close> and every cap \<open>m\<close>: \<open>steps_to_kaprekar\<close>
  returns (it raises nothing), and it returns \<open>None\<close> when \<open>s\<close> is a repdigit. Otherwise it applies \<open>kaprekar_once\<close> repeatedly
  and counts the applications. When \<open>k\<close> is the first number of applications after which
  the numeral is 6174 (none for 6174 itself) and \<open>k\<close> is within the cap, it returns \<open>k\<close>.
  A round of the loop that yields \<open>0000\<close> returns \<open>None\<close>, and no numeral with \<open>0000\<close> among
  its iterates gets a count. When 6174 is not reached within the cap it returns \<open>None\<close>. A
  count that is returned is a number of applications after which the numeral is 6174, and
  none is returned for a repdigit.
\<close>

theorem C2_steps_to_kaprekar_outcomes:
  assumes "is_numeral s"
  shows "(\<exists>result. steps_to_kaprekar s m = Inr result) \<and>
         (is_repdigit s \<longrightarrow> steps_to_kaprekar s m = Inr None) \<and>
         (\<not> is_repdigit s \<and> kaprekar_iter k s = Inr KAPREKAR_CONST \<and>
            (\<forall>j<k. kaprekar_iter j s \<noteq> Inr KAPREKAR_CONST) \<and> (int k \<le> m \<or> k = 0)
          \<longrightarrow> steps_to_kaprekar s m = Inr (Some (int k))) \<and>
         (s \<noteq> KAPREKAR_CONST \<and> c < m \<and> kaprekar_once s = Inr ''0000''
          \<longrightarrow> steps_to_kaprekar_loop s c m = Inr None) \<and>
         (kaprekar_iter (Suc k) s = Inr ''0000'' \<longrightarrow> steps_to_kaprekar s m = Inr None) \<and>
         (\<not> (\<exists>j. (j = 0 \<or> int j \<le> m) \<and> kaprekar_iter j s = Inr KAPREKAR_CONST)
          \<longrightarrow> steps_to_kaprekar s m = Inr None) \<and>
         (steps_to_kaprekar s m = Inr (Some r)
          \<longrightarrow> \<not> is_repdigit s \<and> 0 \<le> r \<and> kaprekar_iter (nat r) s = Inr KAPREKAR_CONST)"
proof (intro conjI impI)
  show "\<exists>result. steps_to_kaprekar s m = Inr result"
    using assms by (rule steps_to_kaprekar_total)
next
  assume "is_repdigit s"
  then show "steps_to_kaprekar s m = Inr None" by (rule steps_to_kaprekar_repdigit)
next
  assume a: "\<not> is_repdigit s \<and> kaprekar_iter k s = Inr KAPREKAR_CONST \<and>
            (\<forall>j<k. kaprekar_iter j s \<noteq> Inr KAPREKAR_CONST) \<and> (int k \<le> m \<or> k = 0)"
  then have "0 + int k \<le> m \<or> k = 0" by simp
  with a have "steps_to_kaprekar_loop s 0 m = Inr (Some (0 + int k))"
    by (intro loop_converged) simp_all
  with a assms show "steps_to_kaprekar s m = Inr (Some (int k))"
    by (simp add: steps_to_kaprekar_numeral)
next
  assume "s \<noteq> KAPREKAR_CONST \<and> c < m \<and> kaprekar_once s = Inr ''0000''"
  then show "steps_to_kaprekar_loop s c m = Inr None"
    by (subst steps_to_kaprekar_loop.simps) simp
next
  assume z: "kaprekar_iter (Suc k) s = Inr ''0000''"
  have "is_repdigit s"
  proof (rule ccontr)
    assume "\<not> is_repdigit s"
    with assms have "kaprekar_iter (Suc k) s \<noteq> Inr ''0000''"
      by (rule kaprekar_iter_never_0000)
    with z show False by simp
  qed
  then show "steps_to_kaprekar s m = Inr None" by (rule steps_to_kaprekar_repdigit)
next
  assume n: "\<not> (\<exists>j. (j = 0 \<or> int j \<le> m) \<and> kaprekar_iter j s = Inr KAPREKAR_CONST)"
  show "steps_to_kaprekar s m = Inr None"
  proof (cases "is_repdigit s")
    case True
    then show ?thesis by (rule steps_to_kaprekar_repdigit)
  next
    case False
    have "\<forall>k. k = 0 \<or> int k \<le> m - 0 \<longrightarrow> kaprekar_iter k s \<noteq> Inr KAPREKAR_CONST"
    proof (intro allI impI)
      fix k assume "k = 0 \<or> int k \<le> m - 0"
      then have "k = 0 \<or> int k \<le> m" by simp
      with n show "kaprekar_iter k s \<noteq> Inr KAPREKAR_CONST" by blast
    qed
    with assms have "steps_to_kaprekar_loop s 0 m = Inr None" by (rule loop_failed)
    with assms False show ?thesis by (simp add: steps_to_kaprekar_numeral)
  qed
next
  assume r: "steps_to_kaprekar s m = Inr (Some r)"
  show nr: "\<not> is_repdigit s"
  proof
    assume "is_repdigit s"
    then have "steps_to_kaprekar s m = Inr None" by (rule steps_to_kaprekar_repdigit)
    with r show False by simp
  qed
  with assms r have "steps_to_kaprekar_loop s 0 m = Inr (Some r)"
    by (simp add: steps_to_kaprekar_numeral)
  from loop_sound [OF this] show "0 \<le> r" "kaprekar_iter (nat r) s = Inr KAPREKAR_CONST"
    by simp_all
qed

theorem C2_witness:
  "is_numeral ''3524'' \<and> \<not> is_repdigit ''3524'' \<and>
   kaprekar_iter 3 ''3524'' = Inr KAPREKAR_CONST \<and>
   steps_to_kaprekar ''3524'' 50 = Inr (Some 3) \<and>
   steps_to_kaprekar ''3524'' 2 = Inr None \<and>
   is_numeral ''1111'' \<and> is_repdigit ''1111'' \<and>
   kaprekar_once ''1111'' = Inr ''0000'' \<and>
   steps_to_kaprekar ''1111'' 50 = Inr None \<and>
   steps_to_kaprekar_loop ''1111'' 0 50 = Inr None"
proof -
  have n1: "is_numeral ''3524''" and r1: "\<not> is_repdigit ''3524''"
    by (simp_all add: eval_simps)
  have i0: "kaprekar_iter 0 ''3524'' = Inr ''3524''"
    and i1: "kaprekar_iter 1 ''3524'' = Inr ''3087''"
    and i2: "kaprekar_iter 2 ''3524'' = Inr ''8352''"
    and i3: "kaprekar_iter 3 ''3524'' = Inr KAPREKAR_CONST"
    by (simp_all add: kaprekar_iter_numeral kaprekar_iter_1 eval_simps)
  have least: "\<forall>j<3. kaprekar_iter j ''3524'' \<noteq> Inr KAPREKAR_CONST"
  proof (intro allI impI)
    fix j :: nat assume "j < 3"
    then consider "j = 0" | "j = 1" | "j = 2" by linarith
    then show "kaprekar_iter j ''3524'' \<noteq> Inr KAPREKAR_CONST"
      by cases (simp_all only: i0 i1 i2, simp_all add: KAPREKAR_CONST_def)
  qed
  have none: "\<not> (\<exists>j. (j = 0 \<or> int j \<le> 2) \<and> kaprekar_iter j ''3524'' = Inr KAPREKAR_CONST)"
  proof
    assume "\<exists>j. (j = 0 \<or> int j \<le> 2) \<and> kaprekar_iter j ''3524'' = Inr KAPREKAR_CONST"
    then obtain j where j: "j = 0 \<or> int j \<le> 2" "kaprekar_iter j ''3524'' = Inr KAPREKAR_CONST"
      by blast
    from j(1) have "j < 3" by linarith
    with least j(2) show False by blast
  qed
  have n2: "is_numeral ''1111''" and r2: "is_repdigit ''1111''"
    and z: "kaprekar_once ''1111'' = Inr ''0000''"
    and ne: "''1111'' \<noteq> KAPREKAR_CONST"
    by (simp_all add: eval_simps)
  note a = C2_steps_to_kaprekar_outcomes [OF n1, where k = 3 and m = 50]
  note b = C2_steps_to_kaprekar_outcomes [OF n1, where m = 2]
  note c = C2_steps_to_kaprekar_outcomes [OF n2, where m = 50 and c = 0]
  from a r1 i3 least have "steps_to_kaprekar ''3524'' 50 = Inr (Some 3)" by simp
  moreover from b none have "steps_to_kaprekar ''3524'' 2 = Inr None" by blast
  moreover from c r2 have "steps_to_kaprekar ''1111'' 50 = Inr None" by blast
  moreover from c z ne have "steps_to_kaprekar_loop ''1111'' 0 50 = Inr None" by simp
  ultimately show ?thesis using n1 r1 i3 n2 r2 z by simp
qed

text \<open>
  Claim C3. With the default cap, \<open>steps_to_kaprekar\<close> returns 3 on \<open>3524\<close>, 5 on \<open>2111\<close>
  and 1 on \<open>8532\<close>.
\<close>

theorem C3_known_examples:
  "steps_to_kaprekar ''3524'' max_iter_default = Inr (Some 3) \<and>
   steps_to_kaprekar ''2111'' max_iter_default = Inr (Some 5) \<and>
   steps_to_kaprekar ''8532'' max_iter_default = Inr (Some 1)"
  by (simp add: eval_simps)

section \<open>The loop of the script, from numerals and from a repdigit\<close>

lemma main_loop_terminates_on_numerals:
  assumes "is_numeral num" "\<not> is_repdigit num"
  shows "\<exists>step. main_loop num 0 = Some (Inr step) \<and> 0 \<le> step \<and> step \<le> 7 \<and>
           kaprekar_iter (nat step) num = Inr ''6174''"
proof -
  from least_convergence [OF converges_within_7 [OF assms]] obtain k
    where k: "k \<le> 7" "kaprekar_iter k num = Inr KAPREKAR_CONST"
      "\<forall>j<k. kaprekar_iter j num \<noteq> Inr KAPREKAR_CONST"
    by blast
  from main_loop_converged [OF assms(1) k(2,3), of 0]
  have "main_loop num 0 = Some (Inr (int k))" by simp
  with k(1,2) have "main_loop num 0 = Some (Inr (int k)) \<and> 0 \<le> int k \<and> int k \<le> 7 \<and>
      kaprekar_iter (nat (int k)) num = Inr ''6174''"
    by (simp add: KAPREKAR_CONST_def)
  then show ?thesis by (rule exI)
qed




text \<open>
  Claim C4. \<open>compute_all\<close> goes through the integers 0 to 9999 in ascending order, skips
  exactly the ten repdigit numerals \<open>0000\<close>, \<open>1111\<close>, ..., \<open>9999\<close> (they are in neither
  list), and sorts every other numeral, in that order, into the step counts or into the
  failures; the two lists together have 10000 - 10 entries.
\<close>

theorem C4_compute_all_partition:
  "compute_all = Inr (List.map_filter converged_steps analyzable, filter is_failure analyzable) \<and>
   all_numerals = map (\<lambda>n. zfill (str_of_int n) 4) [0..9999] \<and>
   analyzable = filter (\<lambda>s. \<not> is_repdigit s) all_numerals \<and>
   filter is_repdigit all_numerals =
     [''0000'', ''1111'', ''2222'', ''3333'', ''4444'', ''5555'', ''6666'', ''7777'', ''8888'', ''9999''] \<and>
   length (filter is_repdigit all_numerals) = 10 \<and>
   length (List.map_filter converged_steps analyzable) + length (filter is_failure analyzable) = 9990"
proof -
  have total: "\<forall>s\<in>set analyzable. \<exists>r. steps_to_kaprekar s max_iter_default = Inr r"
    using analyzable_numeral(1) steps_to_kaprekar_numeral_total by blast
  have "length (List.map_filter converged_steps analyzable) + length (filter is_failure analyzable)
          = length analyzable"
    using total by (rule length_map_filter_partition)
  then have len: "length (List.map_filter converged_steps analyzable) +
      length (filter is_failure analyzable) = 9990"
    by (simp only: length_analyzable)
  from compute_all_eq all_numerals_def analyzable_def skipped_numerals length_skipped len
  show ?thesis by (intro conjI)
qed

text \<open>
  Claim C5. \<open>6174\<close> is a fixed point of the operation: \<open>kaprekar_once\<close> on \<open>6174\<close> returns
  \<open>6174\<close>.
\<close>

theorem C5_fixed_point: "kaprekar_once ''6174'' = Inr ''6174''"
  by (simp add: eval_simps)

text \<open>
  Claim C6. For every numeral of four digits, \<open>kaprekar_once\<close> returns a numeral of exactly
  four decimal digits whose value lies between 0 and 9999; the value of the descending
  arrangement is at least the value of the ascending one, so the difference, which is the
  value of the result, is never negative.
\<close>

theorem C6_kaprekar_once_range:
  assumes "is_numeral s"
  shows "\<exists>t l sm. kaprekar_once s = Inr t \<and> is_numeral t \<and> length t = 4 \<and>
           list_all isdecimal t \<and>
           int_of_str (largest s) = Inr l \<and> int_of_str (smallest s) = Inr sm \<and> sm \<le> l \<and>
           int_of_str t = Inr (l - sm) \<and> 0 \<le> l - sm \<and> l - sm \<le> 9999"
proof -
  from kaprekar_numeral [OF assms] obtain p q r t
    where le: "p \<le> q" "q \<le> r" "r \<le> t" "t < 10"
      and iL: "int_of_str (largest s) = Inr (int (1000 * t + 100 * r + 10 * q + p))"
      and iS: "int_of_str (smallest s) = Inr (int (1000 * p + 100 * q + 10 * r + t))"
      and k: "kaprekar s = Inr (int (999 * (t - p) + 90 * (r - q)))"
      and once: "kaprekar_once s = Inr (numeral_of (999 * (t - p) + 90 * (r - q)))"
    by blast
  define w where "w = 999 * (t - p) + 90 * (r - q)"
  define l where "l = int (1000 * t + 100 * r + 10 * q + p)"
  define sm where "sm = int (1000 * p + 100 * q + 10 * r + t)"
  have "kaprekar s = Inr (l - sm)"
    by (simp only: kaprekar_def iL iS sum.case l_def sm_def)
  with k have diff: "l - sm = int w" by (simp add: w_def)
  from le have w: "w < 10000" unfolding w_def by linarith
  then have v: "int_of_str (numeral_of w) = Inr (l - sm)"
    by (simp add: int_of_str_numeral_of diff)
  have num: "is_numeral (numeral_of w)" by (rule is_numeral_numeral_of)
  from diff w have "sm \<le> l" "0 \<le> l - sm" "l - sm \<le> 9999" by simp_all
  with once iL iS v num show ?thesis
    unfolding w_def [symmetric] l_def [symmetric] sm_def [symmetric]
    by (auto simp: is_numeral_def)
qed

theorem C6_witness:
  "is_numeral ''3524'' \<and>
   (\<exists>t l sm. kaprekar_once ''3524'' = Inr t \<and> is_numeral t \<and> length t = 4 \<and>
           list_all isdecimal t \<and>
           int_of_str (largest ''3524'') = Inr l \<and> int_of_str (smallest ''3524'') = Inr sm \<and>
           sm \<le> l \<and> int_of_str t = Inr (l - sm) \<and> 0 \<le> l - sm \<and> l - sm \<le> 9999)"
proof -
  have h: "is_numeral ''3524''" by (simp add: eval_simps)
  from h C6_kaprekar_once_range [OF h] show ?thesis by (rule conjI)
qed

text \<open>
  Claim C7, as amended. \<open>0000\<close> is not reachable from a numeral of four digits that is not
  a repdigit: no number of applications of \<open>kaprekar_once\<close> to such a numeral gives \<open>0000\<close>,
  so the \<open>0000\<close> test of \<open>steps_to_kaprekar\<close> never fires on one. \<open>0000\<close> is reached from
  repdigits (\<open>1111\<close> in one step), and the test does fire on longer digit strings that are
  not repdigits, such as \<open>21111\<close>, which reaches \<open>9999\<close> and then \<open>0000\<close>.
\<close>

theorem C7_zero_only_from_repdigits:
  "(\<forall>s k. is_numeral s \<and> \<not> is_repdigit s \<longrightarrow> kaprekar_iter k s \<noteq> Inr ''0000'') \<and>
   is_numeral ''1111'' \<and> is_repdigit ''1111'' \<and> kaprekar_iter 1 ''1111'' = Inr ''0000'' \<and>
   \<not> is_numeral ''21111'' \<and> \<not> is_repdigit ''21111'' \<and>
   kaprekar_iter 1 ''21111'' = Inr ''9999'' \<and> kaprekar_iter 2 ''21111'' = Inr ''0000'' \<and>
   steps_to_kaprekar ''21111'' max_iter_default = Inr None"
proof -
  have "\<forall>s k. is_numeral s \<and> \<not> is_repdigit s \<longrightarrow> kaprekar_iter k s \<noteq> Inr ''0000''"
    using kaprekar_iter_never_0000 by blast
  moreover have "is_numeral ''1111''" "is_repdigit ''1111''"
    "kaprekar_iter 1 ''1111'' = Inr ''0000''"
    "\<not> is_numeral ''21111''" "\<not> is_repdigit ''21111''"
    "kaprekar_iter 1 ''21111'' = Inr ''9999''" "kaprekar_iter 2 ''21111'' = Inr ''0000''"
    "steps_to_kaprekar ''21111'' max_iter_default = Inr None"
    by (simp_all add: kaprekar_iter_numeral kaprekar_iter_1 eval_simps)
  ultimately show ?thesis by (intro conjI)
qed

theorem C7_witness:
  "is_numeral ''3524'' \<and> \<not> is_repdigit ''3524'' \<and> kaprekar_iter 2 ''3524'' \<noteq> Inr ''0000''"
proof -
  have h: "is_numeral ''3524''" "\<not> is_repdigit ''3524''" by (simp_all add: eval_simps)
  with C7_zero_only_from_repdigits show ?thesis by blast
qed

text \<open>The claim as it was stated, that some numeral of four digits which is not a repdigit
  has \<open>0000\<close> among its iterates, is false.\<close>

theorem C7_counterexample:
  "\<not> (\<exists>s k. is_numeral s \<and> \<not> is_repdigit s \<and> kaprekar_iter k s = Inr ''0000'')"
proof
  assume "\<exists>s k. is_numeral s \<and> \<not> is_repdigit s \<and> kaprekar_iter k s = Inr ''0000''"
  then obtain s k where "is_numeral s" "\<not> is_repdigit s" "kaprekar_iter k s = Inr ''0000''"
    by blast
  with kaprekar_iter_never_0000 [of s k] show False by simp
qed

text \<open>
  Claim C8. For every numeral of four digits that is not a repdigit, the value of the
  numeral \<open>kaprekar_once\<close> returns is strictly less than the value of the descending
  arrangement of its digits.
\<close>

theorem C8_step_below_largest:
  assumes "is_numeral s" "\<not> is_repdigit s"
  shows "\<exists>t v l. kaprekar_once s = Inr t \<and> int_of_str t = Inr v \<and>
           int_of_str (largest s) = Inr l \<and> v < l"
proof -
  from kaprekar_numeral [OF assms(1)] obtain p q r t
    where le: "p \<le> q" "q \<le> r" "r \<le> t" "t < 10"
      and iL: "int_of_str (largest s) = Inr (int (1000 * t + 100 * r + 10 * q + p))"
      and rep: "is_repdigit s \<longleftrightarrow> p = t"
      and once: "kaprekar_once s = Inr (numeral_of (999 * (t - p) + 90 * (r - q)))"
    by blast
  from rep assms(2) le have "p < t" by simp
  with le have lt: "999 * (t - p) + 90 * (r - q) < 1000 * t + 100 * r + 10 * q + p"
    by linarith
  with le have "999 * (t - p) + 90 * (r - q) < 10000" by linarith
  then have "int_of_str (numeral_of (999 * (t - p) + 90 * (r - q))) =
               Inr (int (999 * (t - p) + 90 * (r - q)))"
    by (rule int_of_str_numeral_of)
  moreover from lt have "int (999 * (t - p) + 90 * (r - q)) < int (1000 * t + 100 * r + 10 * q + p)"
    by (simp only: of_nat_less_iff)
  ultimately show ?thesis using once iL by blast
qed

theorem C8_witness:
  "is_numeral ''3524'' \<and> \<not> is_repdigit ''3524'' \<and>
   (\<exists>t v l. kaprekar_once ''3524'' = Inr t \<and> int_of_str t = Inr v \<and>
           int_of_str (largest ''3524'') = Inr l \<and> v < l)"
proof -
  have h: "is_numeral ''3524''" "\<not> is_repdigit ''3524''" by (simp_all add: eval_simps)
  from h C8_step_below_largest [OF h] show ?thesis by (intro conjI)
qed

text \<open>
  Claim C9. Not being a repdigit is kept by the operation: on a numeral of four digits that
  is not a repdigit, \<open>kaprekar_once\<close> returns a numeral of four digits that is not a repdigit
  either, in particular not \<open>0000\<close>. So from such a start no round of the loop of
  \<open>steps_to_kaprekar\<close> yields \<open>0000\<close>, and the list of failures \<open>compute_all\<close> returns is
  empty.
\<close>

theorem C9_non_repdigit_invariant:
  "(is_numeral s \<and> \<not> is_repdigit s \<longrightarrow>
      (\<exists>t. kaprekar_once s = Inr t \<and> is_numeral t \<and> \<not> is_repdigit t \<and> t \<noteq> ''0000'')) \<and>
   (is_numeral s \<and> \<not> is_repdigit s \<longrightarrow> kaprekar_iter (Suc k) s \<noteq> Inr ''0000'') \<and>
   (\<exists>counts. compute_all = Inr (counts, []))"
proof (intro conjI impI)
  assume a: "is_numeral s \<and> \<not> is_repdigit s"
  then obtain t where t: "kaprekar_once s = Inr t" "is_numeral t" "\<not> is_repdigit t"
    using kaprekar_once_invariant [of s] by blast
  from t(3) is_repdigit_0000 have "t \<noteq> ''0000''" by auto
  with t show "\<exists>t. kaprekar_once s = Inr t \<and> is_numeral t \<and> \<not> is_repdigit t \<and> t \<noteq> ''0000''"
    by blast
  from a show "kaprekar_iter (Suc k) s \<noteq> Inr ''0000''"
    using kaprekar_iter_never_0000 [of s "Suc k"] by blast
next
  have "compute_all = Inr (List.map_filter converged_steps analyzable, [])"
    using compute_all_eq by (simp only: no_failures)
  then show "\<exists>counts. compute_all = Inr (counts, [])"
    by (rule exI)
qed

theorem C9_witness:
  "is_numeral ''3524'' \<and> \<not> is_repdigit ''3524'' \<and>
   (\<exists>t. kaprekar_once ''3524'' = Inr t \<and> is_numeral t \<and> \<not> is_repdigit t \<and> t \<noteq> ''0000'') \<and>
   kaprekar_iter (Suc 0) ''3524'' \<noteq> Inr ''0000''"
proof -
  have h: "is_numeral ''3524''" "\<not> is_repdigit ''3524''" by (simp_all add: eval_simps)
  with C9_non_repdigit_invariant [of "''3524''" 0] show ?thesis by blast
qed


end
